theory Spec2Isabelle
  imports Main "HOL-Library.Multiset"
begin

section \<open>The task-list view model of \<^verbatim>\<open>src/todo-app/src/app/app.ts\<close>\<close>

text \<open>
  The class \<^verbatim>\<open>App\<close> holds four signals (\<^verbatim>\<open>filter\<close>, \<^verbatim>\<open>search\<close>, \<^verbatim>\<open>sort\<close>,
  \<^verbatim>\<open>tasks\<close>), the mutable \<^verbatim>\<open>draft\<close> object and the private counter \<^verbatim>\<open>#nextId\<close>.
  The two computed signals \<^verbatim>\<open>stats\<close> and \<^verbatim>\<open>visibleTasks\<close> are pure functions of the
  signals they read. Every method runs to completion inside one UI event, so the
  class is modelled by a record of its fields and one state-to-state function per
  method.

  Conventions of the embedding.
  \<^item> A \<^verbatim>\<open>number\<close> that the code only uses as an integer (task ids, the counter, the
    priority ranks, the lengths in \<^verbatim>\<open>stats\<close>, the sign returned by a comparator) is an
    \<^typ>\<open>int\<close>. Doubles represent integers exactly below \<open>2^53\<close>; the model has no such
    bound, so it describes runs in which the counter stays in that exact range.
  \<^item> A string is a \<^typ>\<open>string\<close>; one \<^typ>\<open>char\<close> stands for one code unit in the
    range \<open>0..255\<close>.
  \<^item> An optional property (\<^verbatim>\<open>dueDate?: string\<close>) is an \<^typ>\<open>string option\<close>, with
    \<^term>\<open>None\<close> for \<^verbatim>\<open>undefined\<close>.
  \<^item> \<^verbatim>\<open>new Date().toISOString()\<close> reads the clock: the string it returns is an
    argument of the function that calls it.
  \<^item> Field and constructor names follow the source. Where a name is already taken,
    it carries a mark: \<open>id'\<close>, \<open>notes'\<close>, \<open>filter'\<close>, \<open>sort'\<close>, \<open>total'\<close>. The fields of the
    draft and of the statistics, which repeat field names of \<^verbatim>\<open>Task\<close>, carry the
    prefix of their object.
\<close>

subsection \<open>String operations of the runtime\<close>

text \<open>
  \<^verbatim>\<open>String.prototype.trim\<close> removes white space and line terminators from both ends.
  Among the code units below 256 these are TAB, LF, VT, FF, CR, SP and NBSP.
\<close>

definition isWhiteSpace :: "char \<Rightarrow> bool" where
  "isWhiteSpace c = ((of_char c :: nat) \<in> {9, 10, 11, 12, 13, 32, 160})"

definition trim :: "string \<Rightarrow> string" where
  "trim s = rev (dropWhile isWhiteSpace (rev (dropWhile isWhiteSpace s)))"

text \<open>
  \<^verbatim>\<open>String.prototype.toLowerCase\<close>: below 256 the letters with a lower-case partner are
  \<open>A..Z\<close> and \<open>0xC0..0xDE\<close> without the multiplication sign \<open>0xD7\<close>; the partner is
  32 code units higher.
\<close>

definition lowerChar :: "char \<Rightarrow> char" where
  "lowerChar c =
     (let n = (of_char c :: nat)
      in if (65 \<le> n \<and> n \<le> 90) \<or> (192 \<le> n \<and> n \<le> 222 \<and> n \<noteq> 215)
         then char_of (n + 32) else c)"

definition toLowerCase :: "string \<Rightarrow> string" where
  "toLowerCase s = map lowerChar s"

text \<open>
  \<^verbatim>\<open>s.includes(q)\<close>: \<open>q\<close> occurs in \<open>s\<close> as a contiguous run of code units. The
  function tries every start position from the left.
\<close>

fun str_includes :: "string \<Rightarrow> string \<Rightarrow> bool" where
  "str_includes [] q = (q = [])"
| "str_includes (c # cs) q = (take (length q) (c # cs) = q \<or> str_includes cs q)"

text \<open>
  Modelled from the spec: \<^verbatim>\<open>String.prototype.localeCompare\<close> belongs to the runtime,
  not to the repository, and its result depends on the collation of the host. The
  specification reads it as the lexicographic comparison of the two strings
  (``ascending by \<^verbatim>\<open>dueDate\<close> lexicographically'', ``lexicographic string
  comparison on ISO-8601 timestamps''), which is what it is on the digits and
  separators of ISO dates. The result is negative, zero or positive.
\<close>

fun localeCompare :: "string \<Rightarrow> string \<Rightarrow> int" where
  "localeCompare [] [] = 0"
| "localeCompare [] (y # ys) = - 1"
| "localeCompare (x # xs) [] = 1"
| "localeCompare (x # xs) (y # ys) =
     (if (of_char x :: nat) < of_char y then - 1
      else if (of_char y :: nat) < of_char x then 1
      else localeCompare xs ys)"

subsection \<open>\<^verbatim>\<open>Array.prototype.sort\<close>\<close>

text \<open>
  ECMAScript requires \<^verbatim>\<open>sort\<close> to be stable, and for a consistent comparator the
  stable ordering of an array is unique. Insertion from the right computes it: an
  element goes in front of the first element of the sorted rest that it does not
  exceed, hence in front of every later element it compares equal to.
\<close>

fun insert_by :: "('a \<Rightarrow> 'a \<Rightarrow> int) \<Rightarrow> 'a \<Rightarrow> 'a list \<Rightarrow> 'a list" where
  "insert_by cmp x [] = [x]"
| "insert_by cmp x (y # ys) =
     (if cmp x y \<le> 0 then x # y # ys else y # insert_by cmp x ys)"

definition array_sort :: "('a \<Rightarrow> 'a \<Rightarrow> int) \<Rightarrow> 'a list \<Rightarrow> 'a list" where
  "array_sort cmp xs = foldr (insert_by cmp) xs []"

subsection \<open>Data model\<close>

datatype Priority = Low | Medium | High

datatype Filter = AllF | ActiveF | CompletedF

datatype Sort = CreatedS | DueS | PriorityS

record Task =
  id' :: int
  title :: string
  notes' :: string
  priority :: Priority
  dueDate :: "string option"
  completed :: bool
  createdAt :: string

record Draft =
  draft_title :: string
  draft_notes :: string
  draft_dueDate :: string
  draft_priority :: Priority

record Stats =
  total' :: int
  stats_completed :: int
  active :: int

record App =
  filter' :: Filter
  search :: string
  sort' :: Sort
  tasks :: "Task list"
  draft :: Draft
  nextId :: int

text \<open>The value the draft has at construction and after a successful \<^verbatim>\<open>addTask\<close>.\<close>

definition emptyDraft :: Draft where
  "emptyDraft =
     \<lparr>draft_title = [], draft_notes = [], draft_dueDate = [], draft_priority = Medium\<rparr>"

text \<open>
  The field initialisers of the class. The five date strings of the three seeded
  tasks come from the clock at construction.
\<close>

definition initial :: "string \<Rightarrow> string \<Rightarrow> string \<Rightarrow> string \<Rightarrow> string \<Rightarrow> App" where
  "initial created1 due1 created2 created3 due3 =
     \<lparr>filter' = AllF, search = [], sort' = CreatedS,
      tasks =
        [\<lparr>id' = 1, title = ''Draft weekly sprint goals'',
          notes' = ''Share with the team in the Monday stand-up.'',
          priority = High, dueDate = Some due1, completed = False,
          createdAt = created1\<rparr>,
         \<lparr>id' = 2, title = ''Review pull requests'',
          notes' = ''Focus on the UI polish tasks before the release.'',
          priority = Medium, dueDate = None, completed = True,
          createdAt = created2\<rparr>,
         \<lparr>id' = 3, title = ''Plan usability testing session'',
          notes' = ''Collect feedback questions and invite participants.'',
          priority = Low, dueDate = Some due3, completed = False,
          createdAt = created3\<rparr>],
      draft = emptyDraft, nextId = 4\<rparr>"

subsection \<open>Derived values\<close>

definition stats :: "App \<Rightarrow> Stats" where
  "stats s =
     (let items = tasks s;
          completed_n = int (length (filter completed items))
      in \<lparr>total' = int (length items), stats_completed = completed_n,
          active = int (length items) - completed_n\<rparr>)"

text \<open>
  \<^verbatim>\<open>!a.dueDate\<close> holds for \<^verbatim>\<open>undefined\<close> and for the empty string.
\<close>

definition noDue :: "Task \<Rightarrow> bool" where
  "noDue a = (case dueDate a of None \<Rightarrow> True | Some d \<Rightarrow> d = [])"

definition compareDue :: "Task \<Rightarrow> Task \<Rightarrow> int" where
  "compareDue a b =
     (if noDue a \<and> noDue b then 0
      else if noDue a then 1
      else if noDue b then - 1
      else localeCompare (the (dueDate a)) (the (dueDate b)))"

fun order_rank :: "Priority \<Rightarrow> int" where
  "order_rank High = 0"
| "order_rank Medium = 1"
| "order_rank Low = 2"

definition comparePriority :: "Task \<Rightarrow> Task \<Rightarrow> int" where
  "comparePriority a b = order_rank (priority a) - order_rank (priority b)"

definition compareCreated :: "Task \<Rightarrow> Task \<Rightarrow> int" where
  "compareCreated a b = localeCompare (createdAt b) (createdAt a)"

definition matchesFilter :: "Filter \<Rightarrow> Task \<Rightarrow> bool" where
  "matchesFilter f task =
     (f = AllF \<or> (f = ActiveF \<and> \<not> completed task) \<or> (f = CompletedF \<and> completed task))"

definition matchesSearch :: "string \<Rightarrow> Task \<Rightarrow> bool" where
  "matchesSearch q task =
     (q = [] \<or> str_includes (toLowerCase (title task)) q
             \<or> str_includes (toLowerCase (notes' task)) q)"

definition visibleTasks :: "App \<Rightarrow> Task list" where
  "visibleTasks s =
     (let f = filter' s;
          q = toLowerCase (trim (search s));
          filtered = filter (\<lambda>task. matchesFilter f task \<and> matchesSearch q task) (tasks s)
      in if sort' s = DueS then array_sort compareDue filtered
         else if sort' s = PriorityS then array_sort comparePriority filtered
         else array_sort compareCreated filtered)"

subsection \<open>Methods\<close>

text \<open>
  \<^verbatim>\<open>addTask\<close>; \<open>now\<close> is the result of \<^verbatim>\<open>new Date().toISOString()\<close>. The call of
  \<^verbatim>\<open>form.resetForm\<close> acts on the form object of the template and leaves the fields
  of the class alone.
\<close>

definition addTask :: "string \<Rightarrow> App \<Rightarrow> App" where
  "addTask now s =
     (let t = trim (draft_title (draft s))
      in if t = [] then s
         else
           let task = \<lparr>id' = nextId s, title = t,
                       notes' = trim (draft_notes (draft s)),
                       priority = draft_priority (draft s),
                       dueDate = (if draft_dueDate (draft s) = [] then None
                                  else Some (draft_dueDate (draft s))),
                       completed = False, createdAt = now\<rparr>
           in s\<lparr>nextId := nextId s + 1, tasks := tasks s @ [task], draft := emptyDraft\<rparr>)"

definition toggleCompletion :: "int \<Rightarrow> App \<Rightarrow> App" where
  "toggleCompletion taskId s =
     s\<lparr>tasks := map (\<lambda>task. if id' task = taskId
                              then task\<lparr>completed := \<not> completed task\<rparr> else task)
                     (tasks s)\<rparr>"

definition removeTask :: "int \<Rightarrow> App \<Rightarrow> App" where
  "removeTask taskId s = s\<lparr>tasks := filter (\<lambda>task. id' task \<noteq> taskId) (tasks s)\<rparr>"

definition updateFilter :: "Filter \<Rightarrow> App \<Rightarrow> App" where
  "updateFilter f s = s\<lparr>filter' := f\<rparr>"

definition updateSort :: "Sort \<Rightarrow> App \<Rightarrow> App" where
  "updateSort k s = s\<lparr>sort' := k\<rparr>"

definition onSearchChange :: "string \<Rightarrow> App \<Rightarrow> App" where
  "onSearchChange v s = s\<lparr>search := v\<rparr>"

definition clearCompleted :: "App \<Rightarrow> App" where
  "clearCompleted s = s\<lparr>tasks := filter (\<lambda>task. \<not> completed task) (tasks s)\<rparr>"

definition completeAll :: "App \<Rightarrow> App" where
  "completeAll s = s\<lparr>tasks := map (\<lambda>task. task\<lparr>completed := True\<rparr>) (tasks s)\<rparr>"

subsection \<open>Runs\<close>

text \<open>
  One constructor per entry point the template can trigger. \<open>SetDraft\<close> stands for
  the two-way binding of the form, which writes the fields of \<^verbatim>\<open>draft\<close>;
  \<^verbatim>\<open>onSortChange\<close> is \<^verbatim>\<open>updateSort\<close> on the value of the select element.
\<close>

datatype Event =
    AddTask string
  | ToggleCompletion int
  | RemoveTask int
  | UpdateFilter Filter
  | UpdateSort Sort
  | OnSearchChange string
  | ClearCompleted
  | CompleteAll
  | SetDraft Draft

fun step :: "App \<Rightarrow> Event \<Rightarrow> App" where
  "step s (AddTask now) = addTask now s"
| "step s (ToggleCompletion i) = toggleCompletion i s"
| "step s (RemoveTask i) = removeTask i s"
| "step s (UpdateFilter f) = updateFilter f s"
| "step s (UpdateSort k) = updateSort k s"
| "step s (OnSearchChange v) = onSearchChange v s"
| "step s ClearCompleted = clearCompleted s"
| "step s CompleteAll = completeAll s"
| "step s (SetDraft d) = s\<lparr>draft := d\<rparr>"

definition run :: "App \<Rightarrow> Event list \<Rightarrow> App" where
  "run s evs = foldl step s evs"

subsection \<open>Example states\<close>

text \<open>The application as constructed on 2 November 2026 at 09:00 UTC.\<close>

definition seeded :: App where
  "seeded =
     initial ''2026-11-02T09:00:00.000Z'' ''2026-11-03'' ''2026-10-31T09:00:00.000Z''
       ''2026-11-01T09:00:00.000Z'' ''2026-11-09''"

text \<open>A draft whose title is blank while its other fields are filled in.\<close>

definition blankDraft :: Draft where
  "blankDraft =
     \<lparr>draft_title = ''  '', draft_notes = ''call Bob'',
      draft_dueDate = ''2030-05-01'', draft_priority = High\<rparr>"

text \<open>A draft with padded title and notes and a due date that is not an ISO date.\<close>

definition milkDraft :: Draft where
  "milkDraft =
     \<lparr>draft_title = '' Buy milk '', draft_notes = '' 2 litres '',
      draft_dueDate = ''tomorrow'', draft_priority = Low\<rparr>"

text \<open>
  Three drafts with the due dates \<open>2099-01-01\<close>, \<open>2024-01-01\<close> and none, and the
  seeded application after each has been added and the sort key set to \<open>due\<close>.
\<close>

definition farDraft :: Draft where
  "farDraft =
     \<lparr>draft_title = ''Renew passport'', draft_notes = [],
      draft_dueDate = ''2099-01-01'', draft_priority = Medium\<rparr>"

definition pastDraft :: Draft where
  "pastDraft =
     \<lparr>draft_title = ''File the tax return'', draft_notes = [],
      draft_dueDate = ''2024-01-01'', draft_priority = High\<rparr>"

definition undatedDraft :: Draft where
  "undatedDraft =
     \<lparr>draft_title = ''Water the plants'', draft_notes = [],
      draft_dueDate = [], draft_priority = Low\<rparr>"

definition dueDemo :: App where
  "dueDemo =
     run seeded
       [SetDraft farDraft, AddTask ''2026-11-02T10:00:00.000Z'',
        SetDraft pastDraft, AddTask ''2026-11-02T10:01:00.000Z'',
        SetDraft undatedDraft, AddTask ''2026-11-02T10:02:00.000Z'',
        UpdateSort DueS]"

text \<open>
  Four tasks with the priorities low, high, high, medium, stored in this order and
  shown under the sort key \<open>priority\<close>.
\<close>

definition taskA :: Task where
  "taskA = \<lparr>id' = 10, title = ''A'', notes' = [], priority = Low, dueDate = None,
            completed = False, createdAt = ''2026-11-02T10:00:00.000Z''\<rparr>"

definition taskB :: Task where
  "taskB = \<lparr>id' = 11, title = ''B'', notes' = [], priority = High, dueDate = None,
            completed = False, createdAt = ''2026-11-02T10:01:00.000Z''\<rparr>"

definition taskC :: Task where
  "taskC = \<lparr>id' = 12, title = ''C'', notes' = [], priority = High, dueDate = None,
            completed = False, createdAt = ''2026-11-02T10:02:00.000Z''\<rparr>"

definition taskD :: Task where
  "taskD = \<lparr>id' = 13, title = ''D'', notes' = [], priority = Medium, dueDate = None,
            completed = False, createdAt = ''2026-11-02T10:03:00.000Z''\<rparr>"

definition priorityDemo :: App where
  "priorityDemo =
     \<lparr>filter' = AllF, search = [], sort' = PriorityS,
      tasks = [taskA, taskB, taskC, taskD], draft = emptyDraft, nextId = 14\<rparr>"

text \<open>
  The seeded application without its third task, with \<open>Pull\<close> typed into the search
  box between blanks.
\<close>

definition searchDemo :: App where
  "searchDemo = run seeded [RemoveTask 3, OnSearchChange '' Pull  '']"

section \<open>Properties\<close>

subsection \<open>Adding a task\<close>

lemma trim_blank_title: "trim (draft_title blankDraft) = []"
  by (simp add: blankDraft_def trim_def isWhiteSpace_def)

lemma trim_milk_title: "trim (draft_title milkDraft) = ''Buy milk''"
  by (simp add: milkDraft_def trim_def isWhiteSpace_def)

lemma trim_milk_notes: "trim (draft_notes milkDraft) = ''2 litres''"
  by (simp add: milkDraft_def trim_def isWhiteSpace_def)

text \<open>
  C2, as stated: committing a draft with a blank title still resets the draft to its
  defaults. The guard of \<^verbatim>\<open>addTask\<close> returns before the reset: with the blank draft
  typed into the seeded application, the draft after \<^verbatim>\<open>addTask\<close> is not the default
  one.
\<close>

theorem addTask_blank_keeps_draft:
  "trim (draft_title (draft (step seeded (SetDraft blankDraft)))) = [] \<and>
   draft (addTask ''2026-11-02T10:00:00.000Z'' (step seeded (SetDraft blankDraft)))
     \<noteq> emptyDraft"
  by (simp add: addTask_def trim_blank_title) (simp add: blankDraft_def emptyDraft_def)

text \<open>
  C2, amended: when the trimmed title of the draft is empty, \<^verbatim>\<open>addTask\<close> changes
  nothing at all; no task is created, the counter keeps its value and the draft
  keeps every field the user typed.
\<close>

theorem addTask_blank_noop:
  "trim (draft_title (draft s)) = [] \<Longrightarrow> addTask now s = s"
  by (simp add: addTask_def)

theorem addTask_blank_noop_witness:
  "trim (draft_title (draft (step seeded (SetDraft blankDraft)))) = [] \<and>
   addTask ''2026-11-02T10:00:00.000Z'' (step seeded (SetDraft blankDraft))
     = step seeded (SetDraft blankDraft) \<and>
   draft (addTask ''2026-11-02T10:00:00.000Z'' (step seeded (SetDraft blankDraft)))
     = blankDraft"
proof -
  have h: "trim (draft_title (draft (step seeded (SetDraft blankDraft)))) = []"
    by (simp add: trim_blank_title)
  show ?thesis
    using h addTask_blank_noop [OF h, of "''2026-11-02T10:00:00.000Z''"] by simp
qed

text \<open>
  C3: when the trimmed title of the draft is not empty, \<^verbatim>\<open>addTask\<close> appends exactly
  one task at the end of the store; the task is not completed, has the trimmed title
  and notes, no due date when the due-date input is empty, and the id the counter
  held; the counter moves on by one and \<open>total\<close> grows by one. When the trimmed
  title is empty, the tasks, the counter and \<open>total\<close> are as before.
\<close>

theorem addTask_appends:
  "(trim (draft_title (draft s)) \<noteq> [] \<longrightarrow>
      tasks (addTask now s) =
        tasks s @ [\<lparr>id' = nextId s, title = trim (draft_title (draft s)),
                    notes' = trim (draft_notes (draft s)),
                    priority = draft_priority (draft s),
                    dueDate = (if draft_dueDate (draft s) = [] then None
                               else Some (draft_dueDate (draft s))),
                    completed = False, createdAt = now\<rparr>] \<and>
      nextId (addTask now s) = nextId s + 1 \<and>
      total' (stats (addTask now s)) = total' (stats s) + 1) \<and>
   (trim (draft_title (draft s)) = [] \<longrightarrow>
      tasks (addTask now s) = tasks s \<and>
      nextId (addTask now s) = nextId s \<and>
      total' (stats (addTask now s)) = total' (stats s))"
  by (simp add: addTask_def stats_def Let_def)

theorem addTask_appends_witness:
  "trim (draft_title (draft (step seeded (SetDraft milkDraft)))) \<noteq> [] \<and>
   tasks (addTask ''2026-11-02T10:00:00.000Z'' (step seeded (SetDraft milkDraft))) =
     tasks seeded @ [\<lparr>id' = 4, title = ''Buy milk'', notes' = ''2 litres'',
                      priority = Low, dueDate = Some ''tomorrow'',
                      completed = False, createdAt = ''2026-11-02T10:00:00.000Z''\<rparr>] \<and>
   total' (stats (addTask ''2026-11-02T10:00:00.000Z'' (step seeded (SetDraft milkDraft)))) = 4 \<and>
   trim (draft_title (draft (step seeded (SetDraft blankDraft)))) = [] \<and>
   tasks (addTask ''2026-11-02T10:00:00.000Z'' (step seeded (SetDraft blankDraft)))
     = tasks seeded \<and>
   total' (stats (addTask ''2026-11-02T10:00:00.000Z'' (step seeded (SetDraft blankDraft)))) = 3"
proof -
  have next4: "nextId seeded = 4"
    and total3: "\<And>d. total' (stats (seeded\<lparr>draft := d\<rparr>)) = 3"
    by (simp_all add: seeded_def initial_def stats_def)
  have due: "draft_dueDate milkDraft = ''tomorrow''" and prio: "draft_priority milkDraft = Low"
    by (simp_all add: milkDraft_def)
  show ?thesis
    using addTask_appends [of "step seeded (SetDraft milkDraft)" "''2026-11-02T10:00:00.000Z''"]
      addTask_appends [of "step seeded (SetDraft blankDraft)" "''2026-11-02T10:00:00.000Z''"]
    by (simp add: trim_blank_title trim_milk_title trim_milk_notes next4 total3 due prio)
qed

text \<open>
  C9: \<^verbatim>\<open>addTask\<close> does not inspect the due-date input. Whenever a task is created,
  a non-empty input, whatever its form, is the new task's due date as typed, and the
  new task has no due date exactly when the input is the empty string.
\<close>

theorem addTask_dueDate_verbatim:
  "trim (draft_title (draft s)) \<noteq> [] \<Longrightarrow>
   (draft_dueDate (draft s) \<noteq> [] \<longrightarrow>
      dueDate (last (tasks (addTask now s))) = Some (draft_dueDate (draft s))) \<and>
   (dueDate (last (tasks (addTask now s))) = None \<longleftrightarrow> draft_dueDate (draft s) = [])"
  by (simp add: addTask_def Let_def)

theorem addTask_dueDate_verbatim_witness:
  "trim (draft_title (draft (step seeded (SetDraft milkDraft)))) \<noteq> [] \<and>
   draft_dueDate (draft (step seeded (SetDraft milkDraft))) \<noteq> [] \<and>
   dueDate (last (tasks (addTask ''2026-11-02T10:00:00.000Z''
                           (step seeded (SetDraft milkDraft))))) = Some ''tomorrow'' \<and>
   trim (draft_title (draft (step seeded (SetDraft (milkDraft\<lparr>draft_dueDate := []\<rparr>)))))
     \<noteq> [] \<and>
   dueDate (last (tasks (addTask ''2026-11-02T10:00:00.000Z''
                           (step seeded (SetDraft (milkDraft\<lparr>draft_dueDate := []\<rparr>))))))
     = None"
proof -
  have h1: "trim (draft_title (draft (step seeded (SetDraft milkDraft)))) \<noteq> []"
    by (simp add: trim_milk_title)
  have h2: "trim (draft_title (draft (step seeded (SetDraft (milkDraft\<lparr>draft_dueDate := []\<rparr>)))))
              \<noteq> []"
    by (simp add: trim_milk_title)
  have due: "draft_dueDate milkDraft = ''tomorrow''"
    by (simp add: milkDraft_def)
  show ?thesis
    using h1 h2 addTask_dueDate_verbatim [OF h1, of "''2026-11-02T10:00:00.000Z''"]
      addTask_dueDate_verbatim [OF h2, of "''2026-11-02T10:00:00.000Z''"]
    by (simp add: due)
qed

subsection \<open>Statistics\<close>

lemma stats_any:
  "active (stats s) + stats_completed (stats s) = total' (stats s) \<and>
   total' (stats s) = int (length (tasks s)) \<and>
   stats_completed (stats s) =
     int (card {k. k < length (tasks s) \<and> completed (tasks s ! k)}) \<and>
   0 \<le> active (stats s)"
proof -
  have "length (filter completed (tasks s)) \<le> length (tasks s)"
    by (rule length_filter_le)
  then show ?thesis
    by (simp add: stats_def Let_def flip: length_filter_conv_card)
qed

text \<open>
  C4: in every state that a sequence of events reaches from the seeded store, the
  statistics satisfy \<open>active + completed = total\<close>, where \<open>total\<close> is the number of
  tasks and \<open>completed\<close> the number of positions of the list that hold a completed
  task; \<open>active\<close> is never negative.
\<close>

theorem stats_sum:
  "active (stats (run (initial c1 d1 c2 c3 d3) evs)) +
     stats_completed (stats (run (initial c1 d1 c2 c3 d3) evs)) =
     total' (stats (run (initial c1 d1 c2 c3 d3) evs)) \<and>
   total' (stats (run (initial c1 d1 c2 c3 d3) evs)) =
     int (length (tasks (run (initial c1 d1 c2 c3 d3) evs))) \<and>
   stats_completed (stats (run (initial c1 d1 c2 c3 d3) evs)) =
     int (card {k. k < length (tasks (run (initial c1 d1 c2 c3 d3) evs)) \<and>
                   completed (tasks (run (initial c1 d1 c2 c3 d3) evs) ! k)}) \<and>
   0 \<le> active (stats (run (initial c1 d1 c2 c3 d3) evs))"
  by (rule stats_any)

subsection \<open>Toggling, completing and clearing\<close>

text \<open>
  C5: toggling the same id twice gives back the state it started from, so the
  target's flag has its original value and every other task is as it was; one
  toggle flips the flag of the tasks with that id and leaves the others alone; an
  id that no task has leaves the state unchanged.
\<close>

theorem toggleCompletion_twice:
  "toggleCompletion i (toggleCompletion i s) = s \<and>
   length (tasks (toggleCompletion i s)) = length (tasks s) \<and>
   (\<forall>k<length (tasks s).
      tasks (toggleCompletion i s) ! k =
        (if id' (tasks s ! k) = i
         then (tasks s ! k)\<lparr>completed := \<not> completed (tasks s ! k)\<rparr>
         else tasks s ! k)) \<and>
   (i \<notin> id' ` set (tasks s) \<longrightarrow> toggleCompletion i s = s)"
proof -
  let ?f = "\<lambda>task. if id' task = i then task\<lparr>completed := \<not> completed task\<rparr> else task"
  have twice: "map (?f \<circ> ?f) (tasks s) = tasks s"
    by (rule map_idI) simp
  have absent: "map ?f (tasks s) = tasks s" if "i \<notin> id' ` set (tasks s)"
    by (rule map_idI) (use that in auto)
  show ?thesis
    using twice absent by (simp add: toggleCompletion_def)
qed

theorem toggleCompletion_twice_witness:
  "toggleCompletion 2 (toggleCompletion 2 seeded) = seeded \<and>
   completed (tasks seeded ! 1) \<and>
   \<not> completed (tasks (toggleCompletion 2 seeded) ! 1) \<and>
   tasks (toggleCompletion 2 seeded) ! 0 = tasks seeded ! 0 \<and>
   7 \<notin> id' ` set (tasks seeded) \<and>
   toggleCompletion 7 seeded = seeded"
proof -
  have ts: "tasks seeded =
      [\<lparr>id' = 1, title = ''Draft weekly sprint goals'',
        notes' = ''Share with the team in the Monday stand-up.'',
        priority = High, dueDate = Some ''2026-11-03'', completed = False,
        createdAt = ''2026-11-02T09:00:00.000Z''\<rparr>,
       \<lparr>id' = 2, title = ''Review pull requests'',
        notes' = ''Focus on the UI polish tasks before the release.'',
        priority = Medium, dueDate = None, completed = True,
        createdAt = ''2026-10-31T09:00:00.000Z''\<rparr>,
       \<lparr>id' = 3, title = ''Plan usability testing session'',
        notes' = ''Collect feedback questions and invite participants.'',
        priority = Low, dueDate = Some ''2026-11-09'', completed = False,
        createdAt = ''2026-11-01T09:00:00.000Z''\<rparr>]"
    by (simp add: seeded_def initial_def)
  have absent: "7 \<notin> id' ` set (tasks seeded)"
    by (simp add: ts)
  show ?thesis
    using absent toggleCompletion_twice [of 2 seeded] toggleCompletion_twice [of 7 seeded]
    by (simp add: ts)
qed

text \<open>
  C10: \<^verbatim>\<open>completeAll\<close> followed by \<^verbatim>\<open>clearCompleted\<close> empties the store, whatever the
  state. \<^verbatim>\<open>completeAll\<close> replaces each task by itself with \<open>completed\<close> set and
  touches nothing else; \<^verbatim>\<open>clearCompleted\<close> keeps, in order, the tasks that are not
  completed and touches nothing else.
\<close>

theorem completeAll_clearCompleted:
  "tasks (clearCompleted (completeAll s)) = [] \<and>
   list_all2 (\<lambda>t' t. t' = t\<lparr>completed := True\<rparr>) (tasks (completeAll s)) (tasks s) \<and>
   completeAll s = s\<lparr>tasks := tasks (completeAll s)\<rparr> \<and>
   tasks (clearCompleted s) = filter (\<lambda>t. \<not> completed t) (tasks s) \<and>
   clearCompleted s = s\<lparr>tasks := tasks (clearCompleted s)\<rparr>"
  by (simp add: clearCompleted_def completeAll_def filter_empty_conv list_all2_map1
        list_all2_same)

subsection \<open>Identifiers\<close>

lemma nextId_step: "nextId s \<le> nextId (step s e)"
  by (cases e)
     (simp_all add: addTask_def toggleCompletion_def removeTask_def updateFilter_def
        updateSort_def onSearchChange_def clearCompleted_def completeAll_def Let_def)

lemma run_Cons: "run s (e # evs) = run (step s e) evs"
  by (simp add: run_def)

lemma run_append: "run s (evs @ later_evs) = run (run s evs) later_evs"
  by (simp add: run_def)

lemma nextId_run: "nextId s \<le> nextId (run s evs)"
proof (induction evs arbitrary: s)
  case Nil
  show ?case by (simp add: run_def)
next
  case (Cons e evs)
  have "nextId s \<le> nextId (step s e)" by (rule nextId_step)
  also have "\<dots> \<le> nextId (run (step s e) evs)" by (rule Cons.IH)
  finally show ?case by (simp add: run_Cons)
qed

lemma ids_step:
  "id' ` set (tasks (step s e)) \<subseteq> id' ` set (tasks s) \<union> {nextId s ..< nextId (step s e)}"
proof (cases e)
  case (AddTask now)
  then show ?thesis by (auto simp: addTask_def Let_def)
next
  case (ToggleCompletion i)
  then show ?thesis by (auto simp: toggleCompletion_def)
next
  case (RemoveTask i)
  then show ?thesis by (auto simp: removeTask_def)
next
  case ClearCompleted
  then show ?thesis by (auto simp: clearCompleted_def)
next
  case CompleteAll
  then show ?thesis by (auto simp: completeAll_def)
qed (simp_all add: updateFilter_def updateSort_def onSearchChange_def)

lemma ids_run:
  "id' ` set (tasks (run s evs)) \<subseteq> id' ` set (tasks s) \<union> {nextId s ..< nextId (run s evs)}"
proof (induction evs arbitrary: s)
  case Nil
  show ?case by (simp add: run_def)
next
  case (Cons e evs)
  have a: "id' ` set (tasks (run (step s e) evs)) \<subseteq>
        id' ` set (tasks (step s e)) \<union> {nextId (step s e) ..< nextId (run (step s e) evs)}"
    by (rule Cons.IH)
  have b: "id' ` set (tasks (step s e)) \<subseteq> id' ` set (tasks s) \<union> {nextId s ..< nextId (step s e)}"
    by (rule ids_step)
  have c: "nextId s \<le> nextId (step s e)" by (rule nextId_step)
  have d: "nextId (step s e) \<le> nextId (run (step s e) evs)" by (rule nextId_run)
  have "{nextId s ..< nextId (step s e)} \<union> {nextId (step s e) ..< nextId (run (step s e) evs)}
        \<subseteq> {nextId s ..< nextId (run (step s e) evs)}"
    using c d by auto
  with a b show ?case unfolding run_Cons by blast
qed

lemma ids_toggleCompletion:
  "map id' (tasks (toggleCompletion i s)) = map id' (tasks s)"
proof -
  have "id' \<circ> (\<lambda>task. if id' task = i then task\<lparr>completed := \<not> completed task\<rparr> else task)
          = id'"
    by (rule ext) simp
  then show ?thesis by (simp add: toggleCompletion_def)
qed

lemma ids_completeAll: "map id' (tasks (completeAll s)) = map id' (tasks s)"
proof -
  have "id' \<circ> (\<lambda>task. task\<lparr>completed := True\<rparr>) = id'"
    by (rule ext) simp
  then show ?thesis by (simp add: completeAll_def)
qed

lemma ids_fresh_step:
  assumes below: "\<forall>t\<in>set (tasks s). id' t < nextId s"
    and dist: "distinct (map id' (tasks s))"
  shows "(\<forall>t\<in>set (tasks (step s e)). id' t < nextId (step s e)) \<and>
         distinct (map id' (tasks (step s e)))"
proof (cases e)
  case (AddTask now)
  from below have "nextId s \<notin> id' ` set (tasks s)" by auto
  with below dist AddTask show ?thesis
    by (auto simp: addTask_def Let_def)
next
  case (ToggleCompletion i)
  have "\<forall>j\<in>set (map id' (tasks (toggleCompletion i s))). j < nextId s"
    unfolding ids_toggleCompletion using below by simp
  moreover have "distinct (map id' (tasks (toggleCompletion i s)))"
    unfolding ids_toggleCompletion by (rule dist)
  moreover have "nextId (toggleCompletion i s) = nextId s"
    by (simp add: toggleCompletion_def)
  ultimately show ?thesis using ToggleCompletion by simp
next
  case (RemoveTask i)
  with below dist show ?thesis
    by (simp add: removeTask_def distinct_map_filter)
next
  case ClearCompleted
  with below dist show ?thesis
    by (simp add: clearCompleted_def distinct_map_filter)
next
  case CompleteAll
  have "\<forall>j\<in>set (map id' (tasks (completeAll s))). j < nextId s"
    unfolding ids_completeAll using below by simp
  moreover have "distinct (map id' (tasks (completeAll s)))"
    unfolding ids_completeAll by (rule dist)
  moreover have "nextId (completeAll s) = nextId s"
    by (simp add: completeAll_def)
  ultimately show ?thesis using CompleteAll by simp
next
  case (UpdateFilter f)
  with below dist show ?thesis by (simp add: updateFilter_def)
next
  case (UpdateSort k)
  with below dist show ?thesis by (simp add: updateSort_def)
next
  case (OnSearchChange v)
  with below dist show ?thesis by (simp add: onSearchChange_def)
next
  case (SetDraft d)
  with below dist show ?thesis by simp
qed

lemma ids_fresh_run:
  "(\<forall>t\<in>set (tasks s). id' t < nextId s) \<and> distinct (map id' (tasks s)) \<Longrightarrow>
   (\<forall>t\<in>set (tasks (run s evs)). id' t < nextId (run s evs)) \<and>
   distinct (map id' (tasks (run s evs)))"
proof (induction evs arbitrary: s)
  case Nil
  then show ?case by (simp add: run_def)
next
  case (Cons e evs)
  from Cons.prems have "(\<forall>t\<in>set (tasks (step s e)). id' t < nextId (step s e)) \<and>
      distinct (map id' (tasks (step s e)))"
    using ids_fresh_step [of s e] by blast
  then show ?case unfolding run_Cons by (rule Cons.IH)
qed

lemma ids_fresh_initial:
  "(\<forall>t\<in>set (tasks (initial c1 d1 c2 c3 d3)). id' t < nextId (initial c1 d1 c2 c3 d3)) \<and>
   distinct (map id' (tasks (initial c1 d1 c2 c3 d3)))"
  by (simp add: initial_def)

text \<open>
  C6: in every state that a sequence of events reaches from the seeded store, every
  task's id is below the counter and the ids are pairwise distinct; the counter
  never decreases as further events arrive; and an id below the counter that no
  task holds (it was never given out, or its task was removed) is held by no task
  in any later state.
\<close>

theorem ids_never_reused:
  "(\<forall>t\<in>set (tasks (run (initial c1 d1 c2 c3 d3) evs)).
      id' t < nextId (run (initial c1 d1 c2 c3 d3) evs)) \<and>
   distinct (map id' (tasks (run (initial c1 d1 c2 c3 d3) evs))) \<and>
   nextId (run (initial c1 d1 c2 c3 d3) evs)
     \<le> nextId (run (initial c1 d1 c2 c3 d3) (evs @ later_evs)) \<and>
   (\<forall>i. i < nextId (run (initial c1 d1 c2 c3 d3) evs) \<longrightarrow>
        i \<notin> id' ` set (tasks (run (initial c1 d1 c2 c3 d3) evs)) \<longrightarrow>
        i \<notin> id' ` set (tasks (run (initial c1 d1 c2 c3 d3) (evs @ later_evs))))"
proof -
  let ?s = "run (initial c1 d1 c2 c3 d3) evs"
  have inv: "(\<forall>t\<in>set (tasks ?s). id' t < nextId ?s) \<and> distinct (map id' (tasks ?s))"
    by (rule ids_fresh_run) (rule ids_fresh_initial)
  have mono: "nextId ?s \<le> nextId (run ?s later_evs)"
    by (rule nextId_run)
  have "id' ` set (tasks (run ?s later_evs)) \<subseteq> id' ` set (tasks ?s) \<union> {nextId ?s ..< nextId (run ?s later_evs)}"
    by (rule ids_run)
  then have later: "\<forall>i. i < nextId ?s \<longrightarrow> i \<notin> id' ` set (tasks ?s) \<longrightarrow>
      i \<notin> id' ` set (tasks (run ?s later_evs))"
    by auto
  from inv mono later show ?thesis
    unfolding run_append by blast
qed

theorem ids_never_reused_witness:
  "id' (last (tasks (run seeded [SetDraft milkDraft, AddTask ''2026-11-02T10:00:00.000Z'']))) <
     nextId (run seeded [SetDraft milkDraft, AddTask ''2026-11-02T10:00:00.000Z'']) \<and>
   map id' (tasks (run seeded [SetDraft milkDraft, AddTask ''2026-11-02T10:00:00.000Z'', RemoveTask 4]))
     = [1, 2, 3] \<and>
   nextId (run seeded [SetDraft milkDraft, AddTask ''2026-11-02T10:00:00.000Z'', RemoveTask 4]) = 5 \<and>
   4 \<notin> id' ` set (tasks (run seeded
       ([SetDraft milkDraft, AddTask ''2026-11-02T10:00:00.000Z'', RemoveTask 4] @
        [SetDraft milkDraft, AddTask ''2026-11-02T11:00:00.000Z'']))) \<and>
   map id' (tasks (run seeded
       ([SetDraft milkDraft, AddTask ''2026-11-02T10:00:00.000Z'', RemoveTask 4] @
        [SetDraft milkDraft, AddTask ''2026-11-02T11:00:00.000Z''])))
     = [1, 2, 3, 5]"
proof -
  let ?evs = "[SetDraft milkDraft, AddTask ''2026-11-02T10:00:00.000Z'', RemoveTask 4]"
  let ?later = "[SetDraft milkDraft, AddTask ''2026-11-02T11:00:00.000Z'']"
  have b: "nextId (run seeded [SetDraft milkDraft, AddTask ''2026-11-02T10:00:00.000Z'']) = 5"
    by code_simp
  have c: "map id' (tasks (run seeded ?evs)) = [1, 2, 3]"
    by code_simp
  have d: "nextId (run seeded ?evs) = 5"
    by code_simp
  have e: "map id' (tasks (run seeded (?evs @ ?later))) = [1, 2, 3, 5]"
    by code_simp
  have f: "id' (last (tasks (run seeded [SetDraft milkDraft, AddTask ''2026-11-02T10:00:00.000Z''])))
             = 4"
    by code_simp
  have g: "4 \<notin> id' ` set (tasks (run seeded ?evs))"
    by code_simp
  have h: "4 \<notin> id' ` set (tasks (run seeded (?evs @ ?later)))"
    using g d ids_never_reused [of "''2026-11-02T09:00:00.000Z''" "''2026-11-03''"
        "''2026-10-31T09:00:00.000Z''" "''2026-11-01T09:00:00.000Z''" "''2026-11-09''"
        ?evs ?later, folded seeded_def]
    by simp
  show ?thesis
    using h by (simp only: b c d e f) simp
qed

subsection \<open>Sorting with a comparator\<close>

text \<open>
  \<open>array_sort\<close> permutes its argument. When the comparator is total and transitive
  the result is ordered by it, and elements that the comparator does not put in
  strict order keep the order of the argument.
\<close>

lemma mset_insert_by: "mset (insert_by cmp x ys) = add_mset x (mset ys)"
  by (induction ys) simp_all

lemma mset_array_sort: "mset (array_sort cmp xs) = mset xs"
  by (induction xs) (simp_all add: array_sort_def mset_insert_by)

lemma set_array_sort: "set (array_sort cmp xs) = set xs"
  by (metis mset_array_sort set_mset_mset)

lemma length_array_sort: "length (array_sort cmp xs) = length xs"
  by (metis mset_array_sort size_mset)

lemma set_insert_by: "set (insert_by cmp x ys) = insert x (set ys)"
  by (metis mset_insert_by set_mset_add_mset_insert set_mset_mset)

lemma sorted_insert_by:
  assumes tot: "\<And>a b. cmp a b \<le> 0 \<or> cmp b a \<le> 0"
    and trans: "\<And>a b c. cmp a b \<le> 0 \<Longrightarrow> cmp b c \<le> 0 \<Longrightarrow> cmp a c \<le> 0"
  shows "sorted_wrt (\<lambda>a b. cmp a b \<le> 0) ys \<Longrightarrow>
         sorted_wrt (\<lambda>a b. cmp a b \<le> 0) (insert_by cmp x ys)"
proof (induction ys)
  case Nil
  show ?case by simp
next
  case (Cons y ys)
  from Cons.prems have below: "\<forall>z\<in>set ys. cmp y z \<le> 0" and rest: "sorted_wrt (\<lambda>a b. cmp a b \<le> 0) ys"
    by simp_all
  show ?case
  proof (cases "cmp x y \<le> 0")
    case True
    have "\<forall>z\<in>set ys. cmp x z \<le> 0"
    proof
      fix z assume "z \<in> set ys"
      with below have "cmp y z \<le> 0" by simp
      with True show "cmp x z \<le> 0" by (rule trans)
    qed
    with True Cons.prems show ?thesis by simp
  next
    case False
    then have "cmp y x \<le> 0" using tot [of x y] by simp
    with below have "\<forall>z\<in>set (insert_by cmp x ys). cmp y z \<le> 0"
      by (simp add: set_insert_by)
    with False Cons.IH [OF rest] show ?thesis by simp
  qed
qed

lemma sorted_array_sort:
  assumes tot: "\<And>a b. cmp a b \<le> 0 \<or> cmp b a \<le> 0"
    and trans: "\<And>a b c. cmp a b \<le> 0 \<Longrightarrow> cmp b c \<le> 0 \<Longrightarrow> cmp a c \<le> 0"
  shows "sorted_wrt (\<lambda>a b. cmp a b \<le> 0) (array_sort cmp xs)"
proof (induction xs)
  case Nil
  show ?case by (simp add: array_sort_def)
next
  case (Cons x xs)
  have "array_sort cmp (x # xs) = insert_by cmp x (array_sort cmp xs)"
    by (simp add: array_sort_def)
  with Cons show ?case
    using sorted_insert_by [of cmp, OF tot trans] by simp
qed

lemma filter_insert_by:
  assumes "\<And>y. P x \<Longrightarrow> P y \<Longrightarrow> cmp x y \<le> 0"
  shows "filter P (insert_by cmp x ys) = filter P (x # ys)"
  using assms by (induction ys) auto

lemma filter_array_sort:
  assumes "\<And>a b. P a \<Longrightarrow> P b \<Longrightarrow> cmp a b \<le> 0"
  shows "filter P (array_sort cmp xs) = filter P xs"
proof (induction xs)
  case Nil
  show ?case by (simp add: array_sort_def)
next
  case (Cons x xs)
  have "filter P (array_sort cmp (x # xs)) = filter P (x # array_sort cmp xs)"
    using assms by (simp add: array_sort_def filter_insert_by [of P x cmp])
  with Cons show ?case by simp
qed


text \<open>
  The ordering is determined by these two properties: a list that is ordered by a
  total and transitive comparator and that keeps, for every element, the elements
  the comparator ranks equal to it in the order of the argument, is the result of
  \<open>array_sort\<close>. So every stable sorting algorithm computes the same list for the
  comparators of \<^verbatim>\<open>visibleTasks\<close>.
\<close>

lemma stable_sorted_equal:
  assumes tot: "\<And>a b. cmp a b \<le> 0 \<or> cmp b a \<le> 0"
  shows "sorted_wrt (\<lambda>a b. cmp a b \<le> 0) ys \<Longrightarrow>
         sorted_wrt (\<lambda>a b. cmp a b \<le> 0) zs \<Longrightarrow>
         (\<And>k. filter (\<lambda>y. cmp k y \<le> 0 \<and> cmp y k \<le> 0) ys =
               filter (\<lambda>y. cmp k y \<le> 0 \<and> cmp y k \<le> 0) zs) \<Longrightarrow>
         ys = zs"
proof (induction ys arbitrary: zs)
  case Nil
  show ?case
  proof (cases zs)
    case Nil
    then show ?thesis by simp
  next
    case (Cons z zs')
    have "cmp z z \<le> 0" using tot [of z z] by simp
    with Nil.prems(3) [of z] Cons show ?thesis by simp
  qed
next
  case (Cons y ys')
  have refl: "cmp a a \<le> 0" for a using tot [of a a] by simp
  have "y \<in> set (filter (\<lambda>w. cmp y w \<le> 0 \<and> cmp w y \<le> 0) (y # ys'))"
    by (simp add: refl)
  then have "y \<in> set (filter (\<lambda>w. cmp y w \<le> 0 \<and> cmp w y \<le> 0) zs)"
    by (simp only: Cons.prems(3) [of y])
  then have y_in: "y \<in> set zs"
    by (meson filter_is_subset subsetD)
  then obtain z zs' where zs: "zs = z # zs'" by (cases zs) auto
  have "z \<in> set (filter (\<lambda>w. cmp z w \<le> 0 \<and> cmp w z \<le> 0) zs)"
    by (simp add: zs refl)
  then have "z \<in> set (filter (\<lambda>w. cmp z w \<le> 0 \<and> cmp w z \<le> 0) (y # ys'))"
    by (simp only: Cons.prems(3) [of z])
  then have z_in: "z \<in> set (y # ys')"
    by (meson filter_is_subset subsetD)
  from Cons.prems(2) y_in have zy: "cmp z y \<le> 0"
    by (auto simp: zs refl)
  from Cons.prems(1) z_in have yz: "cmp y z \<le> 0"
    by (auto simp: refl)
  from Cons.prems(3) [of y] zy yz have head: "y = z"
    by (simp add: zs refl)
  have "filter (\<lambda>w. cmp k w \<le> 0 \<and> cmp w k \<le> 0) ys' =
        filter (\<lambda>w. cmp k w \<le> 0 \<and> cmp w k \<le> 0) zs'" for k
    using Cons.prems(3) [of k] by (simp add: zs head split: if_splits)
  moreover from Cons.prems(1) have "sorted_wrt (\<lambda>a b. cmp a b \<le> 0) ys'" by simp
  moreover from Cons.prems(2) have "sorted_wrt (\<lambda>a b. cmp a b \<le> 0) zs'" by (simp add: zs)
  ultimately have "ys' = zs'" by (rule Cons.IH [rotated 2])
  with head zs show ?case by simp
qed

lemma array_sort_unique:
  assumes tot: "\<And>a b. cmp a b \<le> 0 \<or> cmp b a \<le> 0"
    and trans: "\<And>a b c. cmp a b \<le> 0 \<Longrightarrow> cmp b c \<le> 0 \<Longrightarrow> cmp a c \<le> 0"
    and ordered: "sorted_wrt (\<lambda>a b. cmp a b \<le> 0) ys"
    and stable: "\<And>k. filter (\<lambda>y. cmp k y \<le> 0 \<and> cmp y k \<le> 0) ys =
                     filter (\<lambda>y. cmp k y \<le> 0 \<and> cmp y k \<le> 0) xs"
  shows "ys = array_sort cmp xs"
proof (rule stable_sorted_equal [of cmp, OF tot ordered])
  show "sorted_wrt (\<lambda>a b. cmp a b \<le> 0) (array_sort cmp xs)"
    using tot trans by (rule sorted_array_sort)
next
  fix k
  have "filter (\<lambda>y. cmp k y \<le> 0 \<and> cmp y k \<le> 0) (array_sort cmp xs) =
        filter (\<lambda>y. cmp k y \<le> 0 \<and> cmp y k \<le> 0) xs"
    by (rule filter_array_sort) (blast intro: trans)
  with stable [of k]
  show "filter (\<lambda>y. cmp k y \<le> 0 \<and> cmp y k \<le> 0) ys =
        filter (\<lambda>y. cmp k y \<le> 0 \<and> cmp y k \<le> 0) (array_sort cmp xs)"
    by simp
qed

subsection \<open>String comparison and search\<close>

lemma localeCompare_flip: "localeCompare b a = - localeCompare a b"
  by (induction a b rule: localeCompare.induct) auto

lemma localeCompare_trans:
  "localeCompare a b \<le> 0 \<Longrightarrow> localeCompare b c \<le> 0 \<Longrightarrow> localeCompare a c \<le> 0"
proof (induction a b arbitrary: c rule: localeCompare.induct)
  case 1
  then show ?case by simp
next
  case (2 y ys)
  then show ?case by (cases c) simp_all
next
  case (3 x xs)
  then show ?case by simp
next
  case (4 x xs y ys)
  show ?case
  proof (cases c)
    case Nil
    with "4.prems" show ?thesis by simp
  next
    case (Cons z zs)
    from "4.prems"(1) have xy: "(of_char x :: nat) \<le> of_char y"
      by (simp split: if_splits)
    from "4.prems"(2) Cons have yz: "(of_char y :: nat) \<le> of_char z"
      by (simp split: if_splits)
    show ?thesis
    proof (cases "(of_char x :: nat) < of_char z")
      case True
      with Cons show ?thesis by simp
    next
      case False
      with xy yz have "(of_char x :: nat) = of_char y \<and> (of_char y :: nat) = of_char z"
        by linarith
      then have e: "x = y" "y = z"
        by simp_all
      with "4.prems" Cons have "localeCompare xs ys \<le> 0" "localeCompare ys zs \<le> 0"
        by simp_all
      with e have "localeCompare xs zs \<le> 0"
        using "4.IH" [of zs] by simp
      with e Cons show ?thesis by simp
    qed
  qed
qed

lemma str_includes_iff: "str_includes s q \<longleftrightarrow> (\<exists>pre suf. s = pre @ q @ suf)"
proof (induction s)
  case Nil
  show ?case by auto
next
  case (Cons c cs)
  have pre: "take (length q) (c # cs) = q \<longleftrightarrow> (\<exists>suf. c # cs = q @ suf)"
    by (metis append_eq_conv_conj append_take_drop_id)
  have "(\<exists>pre suf. c # cs = pre @ q @ suf) \<longleftrightarrow>
        (\<exists>suf. c # cs = q @ suf) \<or> (\<exists>pre suf. cs = pre @ q @ suf)"
    (is "?L \<longleftrightarrow> ?A \<or> ?B")
  proof
    assume ?L
    then obtain pre suf where e: "c # cs = pre @ q @ suf" by blast
    show "?A \<or> ?B"
    proof (cases pre)
      case Nil
      with e show ?thesis by auto
    next
      case (Cons p ps)
      with e have "cs = ps @ q @ suf" by simp
      then show ?thesis by blast
    qed
  next
    assume "?A \<or> ?B"
    then show ?L
    proof
      assume ?A
      then obtain suf where "c # cs = [] @ q @ suf" by auto
      then show ?L by blast
    next
      assume ?B
      then obtain pre suf where "cs = pre @ q @ suf" by blast
      then have "c # cs = (c # pre) @ q @ suf" by simp
      then show ?L by blast
    qed
  qed
  with Cons pre show ?case by simp
qed

lemma matchesSearch_iff:
  "matchesSearch q t \<longleftrightarrow>
     q = [] \<or> (\<exists>pre suf. toLowerCase (title t) = pre @ q @ suf) \<or>
     (\<exists>pre suf. toLowerCase (notes' t) = pre @ q @ suf)"
  by (simp add: matchesSearch_def str_includes_iff)

lemma title_sprint_no_pull: "\<not> str_includes (toLowerCase ''Draft weekly sprint goals'') ''pull''"
  by code_simp

lemma title_review_pull: "str_includes (toLowerCase ''Review pull requests'') ''pull''"
  by code_simp

subsection \<open>The visible list\<close>

lemma compareDue_total: "compareDue a b \<le> 0 \<or> compareDue b a \<le> 0"
  using localeCompare_flip [of "the (dueDate a)" "the (dueDate b)"]
  by (auto simp: compareDue_def)

lemma compareDue_trans:
  "compareDue a b \<le> 0 \<Longrightarrow> compareDue b c \<le> 0 \<Longrightarrow> compareDue a c \<le> 0"
  using localeCompare_trans [of "the (dueDate a)" "the (dueDate b)" "the (dueDate c)"]
  by (simp add: compareDue_def split: if_splits)

lemma comparePriority_total: "comparePriority a b \<le> 0 \<or> comparePriority b a \<le> 0"
  by (simp add: comparePriority_def) linarith

lemma comparePriority_trans:
  "comparePriority a b \<le> 0 \<Longrightarrow> comparePriority b c \<le> 0 \<Longrightarrow> comparePriority a c \<le> 0"
  by (simp add: comparePriority_def)

lemma compareCreated_total: "compareCreated a b \<le> 0 \<or> compareCreated b a \<le> 0"
  using localeCompare_flip [of "createdAt a" "createdAt b"]
  by (auto simp: compareCreated_def)

lemma compareCreated_trans:
  "compareCreated a b \<le> 0 \<Longrightarrow> compareCreated b c \<le> 0 \<Longrightarrow> compareCreated a c \<le> 0"
  using localeCompare_trans [of "createdAt c" "createdAt b" "createdAt a"]
  by (simp add: compareCreated_def)

lemma visibleTasks_sorted:
  "visibleTasks s =
     array_sort (if sort' s = DueS then compareDue
                 else if sort' s = PriorityS then comparePriority else compareCreated)
       (filter (\<lambda>task. matchesFilter (filter' s) task \<and>
                        matchesSearch (toLowerCase (trim (search s))) task) (tasks s))"
  by (simp add: visibleTasks_def Let_def)

lemma set_visibleTasks:
  "set (visibleTasks s) =
     {t \<in> set (tasks s). matchesFilter (filter' s) t \<and>
                          matchesSearch (toLowerCase (trim (search s))) t}"
  by (simp add: visibleTasks_sorted set_array_sort)

lemma filter_visibleTasks:
  assumes "\<And>a b. P a \<Longrightarrow> P b \<Longrightarrow>
             (if sort' s = DueS then compareDue
              else if sort' s = PriorityS then comparePriority else compareCreated) a b \<le> 0"
  shows "filter P (visibleTasks s) = filter (\<lambda>t. P t \<and> t \<in> set (visibleTasks s)) (tasks s)"
proof -
  let ?keep = "\<lambda>task. matchesFilter (filter' s) task \<and>
                      matchesSearch (toLowerCase (trim (search s))) task"
  have "filter P (visibleTasks s) = filter P (filter ?keep (tasks s))"
    unfolding visibleTasks_sorted using assms by (rule filter_array_sort)
  also have "\<dots> = filter (\<lambda>t. P t \<and> t \<in> set (visibleTasks s)) (tasks s)"
    by (simp add: set_visibleTasks) (rule filter_cong, auto)
  finally show ?thesis .
qed

text \<open>
  C1, as stated: under the sort key \<open>due\<close> a task due on \<open>2099-01-01\<close> comes before
  any task due on \<open>2024-01-01\<close>. The comparator sorts ascending: after the three
  drafts have been added to the seeded application, the task due in 2024 (id 5) is
  first and the task due in 2099 (id 4) follows the seeded tasks; the undated tasks
  2 and 6 come last, in stored order.
\<close>

theorem due_sort_ascending:
  "map id' (visibleTasks dueDemo) = [5, 1, 3, 4, 2, 6] \<and>
   map dueDate (visibleTasks dueDemo) =
     [Some ''2024-01-01'', Some ''2026-11-03'', Some ''2026-11-09'', Some ''2099-01-01'',
      None, None]"
  by code_simp

text \<open>
  C1, amended: under the sort key \<open>due\<close>, a visible task due on \<open>2099-01-01\<close>
  comes before every visible task without a due date and after every visible task
  due on \<open>2024-01-01\<close>; the visible tasks without a due date appear in the order in
  which they are stored.
\<close>

theorem due_order:
  "sort' s = DueS \<Longrightarrow>
   (\<forall>i j. i < length (visibleTasks s) \<longrightarrow> j < length (visibleTasks s) \<longrightarrow>
      dueDate (visibleTasks s ! i) = Some ''2099-01-01'' \<longrightarrow>
      (noDue (visibleTasks s ! j) \<longrightarrow> i < j) \<and>
      (dueDate (visibleTasks s ! j) = Some ''2024-01-01'' \<longrightarrow> j < i)) \<and>
   filter noDue (visibleTasks s) = filter (\<lambda>t. noDue t \<and> t \<in> set (visibleTasks s)) (tasks s)"
proof -
  assume due: "sort' s = DueS"
  let ?vs = "visibleTasks s"
  have "sorted_wrt (\<lambda>a b. compareDue a b \<le> 0) ?vs"
    unfolding visibleTasks_sorted using due
    by (simp add: sorted_array_sort [of compareDue, OF compareDue_total compareDue_trans])
  then have ordered: "compareDue (?vs ! i) (?vs ! j) \<le> 0" if "i < j" "j < length ?vs" for i j
    using that by (simp add: sorted_wrt_iff_nth_less)
  have c1: "localeCompare ''2099-01-01'' ''2024-01-01'' = 1"
    by simp
  have first: "i < j"
    if "i < length ?vs" "j < length ?vs" "dueDate (?vs ! i) = Some ''2099-01-01''"
      "noDue (?vs ! j)" for i j
  proof (rule ccontr)
    assume "\<not> i < j"
    moreover from that have "i \<noteq> j" by (auto simp: noDue_def)
    ultimately have "j < i" by simp
    then have "compareDue (?vs ! j) (?vs ! i) \<le> 0" using that(1) by (rule ordered)
    with that show False by (simp add: compareDue_def noDue_def)
  qed
  have second: "j < i"
    if "i < length ?vs" "j < length ?vs" "dueDate (?vs ! i) = Some ''2099-01-01''"
      "dueDate (?vs ! j) = Some ''2024-01-01''" for i j
  proof (rule ccontr)
    assume "\<not> j < i"
    moreover from that have "i \<noteq> j" by auto
    ultimately have "i < j" by simp
    then have "compareDue (?vs ! i) (?vs ! j) \<le> 0" using that(2) by (rule ordered)
    with that c1 show False by (simp add: compareDue_def noDue_def)
  qed
  have stable: "filter noDue ?vs = filter (\<lambda>t. noDue t \<and> t \<in> set ?vs) (tasks s)"
    by (rule filter_visibleTasks) (simp add: due compareDue_def)
  from first second stable show ?thesis by blast
qed

theorem due_order_witness:
  "sort' dueDemo = DueS \<and>
   3 < length (visibleTasks dueDemo) \<and> 4 < length (visibleTasks dueDemo) \<and>
   dueDate (visibleTasks dueDemo ! 3) = Some ''2099-01-01'' \<and>
   noDue (visibleTasks dueDemo ! 4) \<and>
   dueDate (visibleTasks dueDemo ! 0) = Some ''2024-01-01'' \<and>
   map id' (filter noDue (visibleTasks dueDemo)) = [2, 6] \<and>
   map id' (filter (\<lambda>t. noDue t \<and> t \<in> set (visibleTasks dueDemo)) (tasks dueDemo)) = [2, 6]"
proof -
  have h: "sort' dueDemo = DueS"
    by code_simp
  have len: "length (visibleTasks dueDemo) = 6"
    by code_simp
  have far: "dueDate (visibleTasks dueDemo ! 3) = Some ''2099-01-01''"
    by code_simp
  have none: "noDue (visibleTasks dueDemo ! 4)"
    by code_simp
  have past: "dueDate (visibleTasks dueDemo ! 0) = Some ''2024-01-01''"
    by code_simp
  have undated: "map id' (filter noDue (visibleTasks dueDemo)) = [2, 6]"
    by code_simp
  show ?thesis
    using h len far none past undated due_order [OF h] by simp
qed

text \<open>
  C7: under the sort key \<open>priority\<close> the visible list is ascending in the rank
  \<open>high = 0\<close>, \<open>medium = 1\<close>, \<open>low = 2\<close>, and the visible tasks of one priority
  appear in the order in which they are stored; from the stored order
  \<open>[A: low, B: high, C: high, D: medium]\<close>, all visible, the result is
  \<open>[B, C, D, A]\<close>.
\<close>

theorem priority_order:
  "(sort' s = PriorityS \<longrightarrow>
      sorted_wrt (\<lambda>a b. order_rank (priority a) \<le> order_rank (priority b)) (visibleTasks s) \<and>
      (\<forall>p. filter (\<lambda>t. priority t = p) (visibleTasks s) =
           filter (\<lambda>t. priority t = p \<and> t \<in> set (visibleTasks s)) (tasks s))) \<and>
   order_rank High = 0 \<and> order_rank Medium = 1 \<and> order_rank Low = 2 \<and>
   (sort' s = PriorityS \<and> filter' s = AllF \<and> toLowerCase (trim (search s)) = [] \<and>
    tasks s = [A, B, C, D] \<and>
    priority A = Low \<and> priority B = High \<and> priority C = High \<and> priority D = Medium \<longrightarrow>
      visibleTasks s = [B, C, D, A])"
proof -
  have general: "sorted_wrt (\<lambda>a b. order_rank (priority a) \<le> order_rank (priority b)) (visibleTasks s) \<and>
      (\<forall>p. filter (\<lambda>t. priority t = p) (visibleTasks s) =
           filter (\<lambda>t. priority t = p \<and> t \<in> set (visibleTasks s)) (tasks s))"
    if prio: "sort' s = PriorityS"
  proof -
    have "sorted_wrt (\<lambda>a b. comparePriority a b \<le> 0) (visibleTasks s)"
      unfolding visibleTasks_sorted using prio
      by (simp add: sorted_array_sort [of comparePriority,
            OF comparePriority_total comparePriority_trans])
    then have "sorted_wrt (\<lambda>a b. order_rank (priority a) \<le> order_rank (priority b)) (visibleTasks s)"
      by (simp add: comparePriority_def)
    moreover have "filter (\<lambda>t. priority t = p) (visibleTasks s) =
        filter (\<lambda>t. priority t = p \<and> t \<in> set (visibleTasks s)) (tasks s)" for p
      by (rule filter_visibleTasks) (simp add: prio comparePriority_def)
    ultimately show ?thesis by blast
  qed
  have example: "visibleTasks s = [B, C, D, A]"
    if "sort' s = PriorityS" "filter' s = AllF" "toLowerCase (trim (search s)) = []"
      "tasks s = [A, B, C, D]"
      "priority A = Low" "priority B = High" "priority C = High" "priority D = Medium"
    using that
    by (simp add: visibleTasks_sorted matchesFilter_def matchesSearch_def array_sort_def
          comparePriority_def)
  from general example show ?thesis by simp
qed

theorem priority_order_witness:
  "sort' priorityDemo = PriorityS \<and>
   tasks priorityDemo = [taskA, taskB, taskC, taskD] \<and>
   priority taskA = Low \<and> priority taskB = High \<and> priority taskC = High \<and>
   priority taskD = Medium \<and>
   visibleTasks priorityDemo = [taskB, taskC, taskD, taskA] \<and>
   filter (\<lambda>t. priority t = High) (visibleTasks priorityDemo) = [taskB, taskC]"
proof -
  have facts: "sort' priorityDemo = PriorityS" "filter' priorityDemo = AllF"
    "toLowerCase (trim (search priorityDemo)) = []"
    "tasks priorityDemo = [taskA, taskB, taskC, taskD]"
    "priority taskA = Low" "priority taskB = High" "priority taskC = High"
    "priority taskD = Medium"
    by (simp_all add: priorityDemo_def taskA_def taskB_def taskC_def taskD_def
          toLowerCase_def trim_def)
  have vis: "visibleTasks priorityDemo = [taskB, taskC, taskD, taskA]"
    using facts priority_order [of priorityDemo taskA taskB taskC taskD] by simp
  show ?thesis
    using facts vis by simp
qed

text \<open>
  C8: whatever the sort key, the visible list holds, with their multiplicities,
  exactly the stored tasks that pass the filter stage and, when the trimmed and
  lower-cased search text is not empty, have it as a contiguous part of their
  lower-cased title or of their lower-cased notes; an empty search text keeps every
  task of the filter stage. Over two tasks titled \<open>Draft weekly sprint goals\<close> and
  \<open>Review pull requests\<close>, the first with notes that do not contain it, the search
  \<open>pull\<close> shows exactly the second.
\<close>

theorem search_keeps:
  "mset (visibleTasks s) =
     mset (filter (\<lambda>t. matchesFilter (filter' s) t \<and>
                       (toLowerCase (trim (search s)) = [] \<or>
                        (\<exists>pre suf. toLowerCase (title t) = pre @ toLowerCase (trim (search s)) @ suf) \<or>
                        (\<exists>pre suf. toLowerCase (notes' t) = pre @ toLowerCase (trim (search s)) @ suf)))
             (tasks s)) \<and>
   (filter' s = AllF \<and> toLowerCase (trim (search s)) = ''pull'' \<and> tasks s = [t1, t2] \<and>
    title t1 = ''Draft weekly sprint goals'' \<and> title t2 = ''Review pull requests'' \<and>
    \<not> (\<exists>pre suf. toLowerCase (notes' t1) = pre @ ''pull'' @ suf) \<longrightarrow>
      visibleTasks s = [t2])"
proof -
  have general: "mset (visibleTasks s) =
     mset (filter (\<lambda>t. matchesFilter (filter' s) t \<and>
                       (toLowerCase (trim (search s)) = [] \<or>
                        (\<exists>pre suf. toLowerCase (title t) = pre @ toLowerCase (trim (search s)) @ suf) \<or>
                        (\<exists>pre suf. toLowerCase (notes' t) = pre @ toLowerCase (trim (search s)) @ suf)))
             (tasks s))"
    by (simp add: visibleTasks_sorted mset_array_sort matchesSearch_iff)
  have example: "visibleTasks s = [t2]"
    if "filter' s = AllF" "toLowerCase (trim (search s)) = ''pull''" "tasks s = [t1, t2]"
      "title t1 = ''Draft weekly sprint goals''" "title t2 = ''Review pull requests''"
      "\<not> (\<exists>pre suf. toLowerCase (notes' t1) = pre @ ''pull'' @ suf)"
  proof -
    from that(4,6) have "\<not> matchesSearch ''pull'' t1"
      using title_sprint_no_pull by (simp add: matchesSearch_def str_includes_iff)
    moreover from that(5) have "matchesSearch ''pull'' t2"
      using title_review_pull by (simp add: matchesSearch_def)
    ultimately show ?thesis
      using that(1,2,3)
      by (simp add: visibleTasks_sorted matchesFilter_def array_sort_def)
  qed
  from general example show ?thesis by blast
qed

theorem search_keeps_witness:
  "filter' searchDemo = AllF \<and> toLowerCase (trim (search searchDemo)) = ''pull'' \<and>
   map title (tasks searchDemo) = [''Draft weekly sprint goals'', ''Review pull requests''] \<and>
   \<not> str_includes (toLowerCase (notes' (tasks searchDemo ! 0))) ''pull'' \<and>
   visibleTasks searchDemo = [tasks searchDemo ! 1] \<and>
   map title (visibleTasks searchDemo) = [''Review pull requests'']"
proof -
  have facts: "filter' searchDemo = AllF" "toLowerCase (trim (search searchDemo)) = ''pull''"
    "tasks searchDemo = [tasks searchDemo ! 0, tasks searchDemo ! 1]"
    "title (tasks searchDemo ! 0) = ''Draft weekly sprint goals''"
    "title (tasks searchDemo ! 1) = ''Review pull requests''"
    "map title (tasks searchDemo) = [''Draft weekly sprint goals'', ''Review pull requests'']"
    by code_simp+
  have quiet: "\<not> str_includes (toLowerCase (notes' (tasks searchDemo ! 0))) ''pull''"
    by code_simp
  then have "\<not> (\<exists>pre suf. toLowerCase (notes' (tasks searchDemo ! 0)) = pre @ ''pull'' @ suf)"
    unfolding str_includes_iff .
  with facts have "visibleTasks searchDemo = [tasks searchDemo ! 1]"
    using search_keeps [of searchDemo "tasks searchDemo ! 0" "tasks searchDemo ! 1"] by blast
  with facts quiet show ?thesis by simp
qed

end
